theory Spec2Isabelle
  imports Main "HOL-Library.Word"
begin

unbundle bit_operations_syntax

section \<open>Machine integers and outcomes\<close>

text \<open>
  The width table of \<^verbatim>\<open>buffer.go\<close> holds literals beyond 32 bits, so the package only
  compiles where Go's \<^verbatim>\<open>int\<close> has 64 bits. An \<^verbatim>\<open>int\<close> is a 64-bit word read as two's
  complement: \<open>+\<close>, \<open>-\<close> and \<open>*\<close> wrap around as Go's do, comparisons are the signed
  ones (\<open><s\<close>, \<open>\<le>s\<close>), and \<open>sint\<close> gives the value.
\<close>

type_synonym int64 = "64 word"

text \<open>A call either returns or panics; a panic carries its message.\<close>

datatype 'a outcome = Ok 'a | Panic string

text \<open>Statements in sequence: the next one runs on what the first returned, and a panic ends
  the call.\<close>

fun andThen :: "'a outcome \<Rightarrow> ('a \<Rightarrow> 'b outcome) \<Rightarrow> 'b outcome" where
  "andThen (Ok x) f = f x"
| "andThen (Panic m) f = Panic m"

section \<open>The width calculator\<close>

text \<open>The table \<^verbatim>\<open>cache\<close>: rows \<^verbatim>\<open>{pow, sum}\<close>.\<close>

definition cache :: "(int64 \<times> int64) list" where
  "cache =
    [(0, 0),
     (9, 9),
     (99, 189),
     (999, 2889),
     (9999, 38889),
     (99999, 488889),
     (999999, 5888889),
     (9999999, 68888889),
     (99999999, 788888889),
     (999999999, 8888888889),
     (9999999999, 98888888889),
     (99999999999, 1088888888889),
     (999999999999, 11888888888889),
     (9999999999999, 128888888888889),
     (99999999999999, 1388888888888889),
     (999999999999999, 14888888888888889),
     (9999999999999999, 158888888888888889),
     (99999999999999999, 1688888888888888889)]"

text \<open>
  The scan \<^verbatim>\<open>for i := 3; ; i++\<close> of \<^verbatim>\<open>totalWidth\<close>. It has no exit condition of its own:
  reading \<^verbatim>\<open>cache[i]\<close> past the last row is Go's index panic.
\<close>

function totalWidth_scan :: "int64 \<Rightarrow> int64 \<Rightarrow> nat \<Rightarrow> int64 outcome" where
  "totalWidth_scan n add i =
     (if length cache \<le> i then Panic ''index out of range''
      else if n \<le>s fst (cache ! i)
        then Ok ((n - fst (cache ! (i - 1))) * of_nat i + snd (cache ! (i - 1)) + n * add)
      else totalWidth_scan n add (i + 1))"
  by pat_completeness auto
termination
  by (relation "measure (\<lambda>(n, add, i). length cache - i)") auto

definition totalWidth :: "int64 \<Rightarrow> int64 \<Rightarrow> int64 outcome" where
  "totalWidth n add =
     (if n \<le>s 0 then Ok add
      else if n <s 10 then Ok (n + n * add)
      else if n <s 100 then Ok (n * 2 - 9 + n * add)
      else if fst (cache ! (length cache - 1)) <s n then Ok 0
      else totalWidth_scan n add 3)"

text \<open>
  The number of base-10 digits of a natural number, and the brute-force width of the
  numbers \<open>1..n\<close> with \<open>extra\<close> more characters for each.
\<close>

fun ndigits :: "nat \<Rightarrow> nat" where
  "ndigits n = (if n < 10 then 1 else Suc (ndigits (n div 10)))"

definition bruteWidth :: "nat \<Rightarrow> nat \<Rightarrow> nat" where
  "bruteWidth n extra = (\<Sum>i = 1..n. ndigits i + extra)"

definition digitSum :: "nat \<Rightarrow> nat" where
  "digitSum n = (\<Sum>i = 1..n. ndigits i)"


section \<open>The buffer\<close>

text \<open>
  \<^verbatim>\<open>Buffer\<close> embeds a \<^verbatim>\<open>bytes.Buffer\<close> next to the flag \<^verbatim>\<open>unsafe\<close>. Of the embedded
  buffer the contents are kept (nothing here reads from it, so the contents are the unread
  bytes).
\<close>

record Buffer =
  unsafe :: "32 word"
  buf :: string

definition Len :: "Buffer \<Rightarrow> nat" where
  "Len w = length (buf w)"

definition Reset :: "Buffer \<Rightarrow> Buffer" where
  "Reset w = w\<lparr>buf := []\<rparr>"

text \<open>
  A \<^verbatim>\<open>bytes.Buffer\<close> that cannot grow panics with \<^verbatim>\<open>ErrTooLarge\<close>, in its writes as in
  \<^verbatim>\<open>Grow\<close>. How far it can grow is the runtime's affair: \<open>room\<close> is the number of bytes
  the runtime can give the buffer, a parameter of every operation that may grow it, and no
  buffer is longer than the largest \<^verbatim>\<open>int\<close>. Growing by nothing never fails.
\<close>

definition canHold :: "nat \<Rightarrow> nat \<Rightarrow> bool" where
  "canHold room n \<longleftrightarrow> n \<le> room \<and> n \<le> 9223372036854775807"

definition WriteString :: "nat \<Rightarrow> Buffer \<Rightarrow> string \<Rightarrow> Buffer outcome" where
  "WriteString room w s =
     (if s = [] \<or> canHold room (length (buf w) + length s)
      then Ok (w\<lparr>buf := buf w @ s\<rparr>)
      else Panic ''bytes.Buffer: too large'')"

definition WriteByte :: "nat \<Rightarrow> Buffer \<Rightarrow> char \<Rightarrow> Buffer outcome" where
  "WriteByte room w c =
     (if canHold room (length (buf w) + 1)
      then Ok (w\<lparr>buf := buf w @ [c]\<rparr>)
      else Panic ''bytes.Buffer: too large'')"

text \<open>
  \<^verbatim>\<open>bytes.Buffer.Grow\<close> panics on a negative count, panics with \<^verbatim>\<open>ErrTooLarge\<close> when the
  buffer cannot grow by the count, and otherwise leaves the contents as they are.
\<close>

definition Grow :: "nat \<Rightarrow> Buffer \<Rightarrow> int64 \<Rightarrow> Buffer outcome" where
  "Grow room w n =
     (if n <s 0 then Panic ''bytes.Buffer.Grow: negative count''
      else if n = 0 \<or> canHold room (length (buf w) + nat (sint n)) then Ok w
      else Panic ''bytes.Buffer: too large'')"

subsection \<open>Decimal text\<close>

text \<open>
  \<^verbatim>\<open>strconv.Itoa\<close> is the standard library's: the base-10 text of the value, without
  leading zeros, with a leading \<^verbatim>\<open>-\<close> below zero.
\<close>

definition digit :: "nat \<Rightarrow> char" where
  "digit d = ''0123456789'' ! d"

fun decimal :: "nat \<Rightarrow> string" where
  "decimal n = (if n < 10 then [digit n] else decimal (n div 10) @ [digit (n mod 10)])"

definition showInt :: "int \<Rightarrow> string" where
  "showInt v = (if v < 0 then CHR ''-'' # decimal (nat (- v)) else decimal (nat v))"

definition Itoa :: "int64 \<Rightarrow> string" where
  "Itoa i = showInt (sint i)"

definition WriteInt :: "nat \<Rightarrow> Buffer \<Rightarrow> int64 \<Rightarrow> Buffer outcome" where
  "WriteInt room w i = WriteString room w (Itoa i)"

subsection \<open>Preallocation\<close>

text \<open>\<^verbatim>\<open>const intSize = (32 << (^uint(0) >> 63)) - 1\<close>\<close>

definition intSize :: nat where
  "intSize = push_bit (unat (drop_bit 63 (NOT (0 :: 64 word)))) 32 - 1"

text \<open>
  The clamp \<^verbatim>\<open>x & ^(x >> intSize)\<close> of \<^verbatim>\<open>grow\<close>, commented \<^verbatim>\<open>x > 0 ? x : 0\<close>; the shift of
  a signed \<^verbatim>\<open>int\<close> is arithmetic.
\<close>

definition clamp :: "int64 \<Rightarrow> int64" where
  "clamp x = x AND NOT (signed_drop_bit intSize x)"

text \<open>
  \<^verbatim>\<open>grow\<close> computes a size and hands it to \<^verbatim>\<open>Grow\<close>; \<open>growSize\<close> is that size, the
  number of bytes reserved.
\<close>

definition growSize :: "int64 \<Rightarrow> int64 \<Rightarrow> int64 \<Rightarrow> int64 outcome" where
  "growSize start end num =
     (case totalWidth (end - start + 1) 3 of
        Panic m \<Rightarrow> Panic m
      | Ok width \<Rightarrow>
          (let x = (width + 2) * num - 2
           in Ok (clamp x)))"

definition grow :: "nat \<Rightarrow> Buffer \<Rightarrow> int64 \<Rightarrow> int64 \<Rightarrow> int64 \<Rightarrow> Buffer outcome" where
  "grow room w start end num =
     (case growSize start end num of Panic m \<Rightarrow> Panic m | Ok n \<Rightarrow> Grow room w n)"

section \<open>The placeholder writer\<close>

text \<open>The loop \<^verbatim>\<open>for _, v := range prefix\<close> of \<^verbatim>\<open>writeGroup\<close>.\<close>

fun writeGroup_prefix :: "nat \<Rightarrow> Buffer \<Rightarrow> int64 list \<Rightarrow> Buffer outcome" where
  "writeGroup_prefix room w [] = Ok w"
| "writeGroup_prefix room w (v # vs) =
     andThen (WriteInt room w v) (\<lambda>w1.
     andThen (WriteString room w1 '', $'') (\<lambda>w2.
     writeGroup_prefix room w2 vs))"

text \<open>The loop \<^verbatim>\<open>for i := 1; i < groupLen; i, offset = i+1, offset+1\<close> of \<^verbatim>\<open>writeGroup\<close>.\<close>

function writeGroup_loop :: "nat \<Rightarrow> Buffer \<Rightarrow> int64 \<Rightarrow> int64 \<Rightarrow> int64 \<Rightarrow> Buffer outcome" where
  "writeGroup_loop room w i offset groupLen =
     (if i <s groupLen
      then andThen (WriteString room w '', $'') (\<lambda>w1.
           andThen (WriteInt room w1 (offset + 1)) (\<lambda>w2.
           writeGroup_loop room w2 (i + 1) (offset + 1) groupLen))
      else Ok w)"
  by pat_completeness auto
termination
proof (relation "measure (\<lambda>(room, w, i, offset, groupLen). nat (sint groupLen - sint i))")
  show "wf (measure (\<lambda>(room, w, i, offset, groupLen). nat (sint groupLen - sint i)))" by simp
next
  fix room :: nat and w w1 w2 :: Buffer and i offset groupLen :: int64
  assume "i <s groupLen"
  then have lt: "sint i < sint groupLen" by (simp add: word_sless_alt)
  have "sint groupLen < 2 ^ 63" using sint_lt [of groupLen] by simp
  moreover have "- (2 ^ 63) \<le> sint i" using sint_ge [of i] by simp
  ultimately have "sint (i + 1) = sint i + 1"
    using lt by (simp add: sint_word_ariths signed_take_bit_int_eq_self)
  then show "((room, w2, i + 1, offset + 1, groupLen), (room, w, i, offset, groupLen))
             \<in> measure (\<lambda>(room, w, i, offset, groupLen). nat (sint groupLen - sint i))"
    using lt by simp
qed

definition writeGroup ::
  "nat \<Rightarrow> Buffer \<Rightarrow> int64 list \<Rightarrow> int64 \<Rightarrow> int64 \<Rightarrow> (Buffer \<times> int64) outcome" where
  "writeGroup room w prefix offset groupLen =
     andThen (WriteString room w '' ($'') (\<lambda>w1.
     andThen (writeGroup_prefix room w1 prefix) (\<lambda>w2.
     andThen (WriteInt room w2 offset) (\<lambda>w3.
     andThen (writeGroup_loop room w3 1 offset groupLen) (\<lambda>w4.
     andThen (WriteByte room w4 CHR '')'') (\<lambda>w5.
     Ok (w5, groupLen))))))"

text \<open>
  The bytes that one call of \<open>writeGroup\<close> appends, with the numbers in the wrapping
  arithmetic of the code (\<open>writeGroup_eq\<close> below proves it).
\<close>

definition groupBytes :: "int64 list \<Rightarrow> int64 \<Rightarrow> int64 \<Rightarrow> string" where
  "groupBytes prefix offset groupLen =
     '' ($'' @ concat (map (\<lambda>v. Itoa v @ '', $'') prefix) @ Itoa offset
       @ concat (map (\<lambda>j. '', $'' @ Itoa (offset + 1 + of_nat j)) [0..<nat (sint groupLen - 1)])
       @ '')''"

text \<open>The loop \<^verbatim>\<open>for groups--; groups > 0; groups--\<close> of \<^verbatim>\<open>WriteGroups\<close>, entered after the
  first decrement.\<close>

function WriteGroups_loop ::
  "nat \<Rightarrow> Buffer \<Rightarrow> int64 list \<Rightarrow> int64 \<Rightarrow> int64 \<Rightarrow> int64 \<Rightarrow> Buffer outcome" where
  "WriteGroups_loop room w prefix offset groupLen groups =
     (if 0 <s groups
      then andThen (WriteByte room w CHR '','') (\<lambda>w1.
           andThen (writeGroup room w1 prefix offset groupLen) (\<lambda>(w2, n).
           WriteGroups_loop room w2 prefix (offset + n) groupLen (groups - 1)))
      else Ok w)"
  by pat_completeness auto
termination
proof (relation "measure (\<lambda>(room, w, prefix, offset, groupLen, groups). nat (sint groups))")
  show "wf (measure (\<lambda>(room, w, prefix, offset, groupLen, groups). nat (sint groups)))" by simp
next
  fix room :: nat and w w1 w2 :: Buffer and prefix :: "int64 list"
    and offset groupLen groups n :: int64 and p :: "Buffer \<times> int64"
  assume "0 <s groups"
  then have pos: "0 < sint groups" by (simp add: word_sless_alt)
  have "sint groups < 2 ^ 63" using sint_lt [of groups] by simp
  then have "sint (groups - 1) = sint groups - 1"
    using pos by (simp add: sint_word_ariths signed_take_bit_int_eq_self)
  then show "((room, w2, prefix, offset + n, groupLen, groups - 1),
              (room, w, prefix, offset, groupLen, groups))
             \<in> measure (\<lambda>(room, w, prefix, offset, groupLen, groups). nat (sint groups))"
    using pos by simp
qed

definition WriteGroups ::
  "nat \<Rightarrow> Buffer \<Rightarrow> int64 \<Rightarrow> int64 \<Rightarrow> int64 \<Rightarrow> int64 list \<Rightarrow> (string option \<times> Buffer) outcome" where
  "WriteGroups room w offset groupLen groups prefix =
     (if offset <s 0 \<or> groups = 0 then Ok (Some ''invalid arguments to WriteGroups'', w)
      else andThen (grow room w 0 groupLen groups) (\<lambda>w0.
           andThen (writeGroup room w0 prefix offset groupLen) (\<lambda>(w1, n).
           andThen (WriteGroups_loop room w1 prefix (offset + n) groupLen (groups - 1)) (\<lambda>w2.
           Ok (None, w2)))))"

text \<open>
  \<^verbatim>\<open>WriteInterval\<close> writes one interval and then repeats the same statements in its loop.
  \<open>WriteInterval_nums\<close> is the inner loop \<^verbatim>\<open>for i := start; i < end; i++\<close>, which the
  source has twice.
\<close>

function WriteInterval_nums :: "nat \<Rightarrow> Buffer \<Rightarrow> int64 \<Rightarrow> int64 \<Rightarrow> Buffer outcome" where
  "WriteInterval_nums room w i end =
     (if i <s end
      then andThen (WriteString room w '', $'') (\<lambda>w1.
           andThen (WriteInt room w1 (i + 1)) (\<lambda>w2.
           WriteInterval_nums room w2 (i + 1) end))
      else Ok w)"
  by pat_completeness auto
termination
proof (relation "measure (\<lambda>(room, w, i, end). nat (sint end - sint i))")
  show "wf (measure (\<lambda>(room, w, i, end). nat (sint end - sint i)))" by simp
next
  fix room :: nat and w w1 w2 :: Buffer and i e :: int64
  assume "i <s e"
  then have lt: "sint i < sint e" by (simp add: word_sless_alt)
  have "sint e < 2 ^ 63" using sint_lt [of e] by simp
  moreover have "- (2 ^ 63) \<le> sint i" using sint_ge [of i] by simp
  ultimately have "sint (i + 1) = sint i + 1"
    using lt by (simp add: sint_word_ariths signed_take_bit_int_eq_self)
  then show "((room, w2, i + 1, e), (room, w, i, e))
             \<in> measure (\<lambda>(room, w, i, end). nat (sint end - sint i))"
    using lt by simp
qed

function WriteInterval_loop ::
  "nat \<Rightarrow> Buffer \<Rightarrow> int64 \<Rightarrow> int64 \<Rightarrow> int64 \<Rightarrow> Buffer outcome" where
  "WriteInterval_loop room w start end num =
     (if 0 <s num
      then andThen (WriteString room w '', ($'') (\<lambda>w1.
           andThen (WriteInt room w1 start) (\<lambda>w2.
           andThen (WriteInterval_nums room w2 start end) (\<lambda>w3.
           andThen (WriteByte room w3 CHR '')'') (\<lambda>w4.
           WriteInterval_loop room w4 start end (num - 1)))))
      else Ok w)"
  by pat_completeness auto
termination
proof (relation "measure (\<lambda>(room, w, start, end, num). nat (sint num))")
  show "wf (measure (\<lambda>(room, w, start, end, num). nat (sint num)))" by simp
next
  fix room :: nat and w w1 w2 w3 w4 :: Buffer and start e num :: int64
  assume "0 <s num"
  then have pos: "0 < sint num" by (simp add: word_sless_alt)
  have "sint num < 2 ^ 63" using sint_lt [of num] by simp
  then have "sint (num - 1) = sint num - 1"
    using pos by (simp add: sint_word_ariths signed_take_bit_int_eq_self)
  then show "((room, w4, start, e, num - 1), (room, w, start, e, num))
             \<in> measure (\<lambda>(room, w, start, end, num). nat (sint num))"
    using pos by simp
qed

definition WriteInterval ::
  "nat \<Rightarrow> Buffer \<Rightarrow> int64 \<Rightarrow> int64 \<Rightarrow> int64 \<Rightarrow> (string option \<times> Buffer) outcome" where
  "WriteInterval room w start end num =
     (if start <s 0 \<or> end \<le>s start \<or> num = 0
      then Ok (Some ''invalid arguments to WriteInterval'', w)
      else andThen (grow room w start end num) (\<lambda>w0.
           andThen (WriteString room w0 '' ($'') (\<lambda>w1.
           andThen (WriteInt room w1 start) (\<lambda>w2.
           andThen (WriteInterval_nums room w2 start end) (\<lambda>w3.
           andThen (WriteByte room w3 CHR '')'') (\<lambda>w4.
           andThen (WriteInterval_loop room w4 start end (num - 1)) (\<lambda>w5.
           Ok (None, w5))))))))"

section \<open>The pool and the escape hatch\<close>

text \<open>
  \<^verbatim>\<open>bufferPool\<close> is the list of idle buffers. The atomic operations on \<^verbatim>\<open>unsafe\<close> are
  taken one at a time: \<open>CompareAndSwapUint32 v old new\<close> gives whether the swap happened
  and the value afterwards.
\<close>

type_synonym pool = "Buffer list"

definition CompareAndSwapUint32 :: "32 word \<Rightarrow> 32 word \<Rightarrow> 32 word \<Rightarrow> bool \<times> 32 word" where
  "CompareAndSwapUint32 v old new = (if v = old then (True, new) else (False, v))"

definition PutBuffer :: "Buffer \<Rightarrow> pool \<Rightarrow> (Buffer \<times> pool) outcome" where
  "PutBuffer b bufferPool =
     (if unsafe b \<noteq> 0
      then Panic ''pools: PutBuffer called after UnsafeBytes without finalizer running''
      else (let b1 = Reset b in Ok (b1, b1 # bufferPool)))"

text \<open>
  \<open>UnsafeBytes\<close> gives the returned slice (\<open>None\<close> for \<^verbatim>\<open>nil\<close>), the buffer and the pool
  afterwards. With the flag set to 1 the finalizer is registered; \<open>finalizer\<close> is its body,
  run when the slice is collected.
\<close>

definition UnsafeBytes :: "Buffer \<Rightarrow> pool \<Rightarrow> (string option \<times> Buffer \<times> pool) outcome" where
  "UnsafeBytes b bufferPool =
     (if Len b = 0
      then (case PutBuffer b bufferPool of
              Panic m \<Rightarrow> Panic m
            | Ok (b1, pool1) \<Rightarrow> Ok (None, b1, pool1))
      else (case CompareAndSwapUint32 (unsafe b) 0 1 of
              (False, u) \<Rightarrow> Panic ''pools: UnsafeBytes called twice''
            | (True, u) \<Rightarrow> Ok (Some (buf b), b\<lparr>unsafe := u\<rparr>, bufferPool)))"

definition finalizer :: "Buffer \<Rightarrow> pool \<Rightarrow> (Buffer \<times> pool) outcome" where
  "finalizer b bufferPool =
     (case CompareAndSwapUint32 (unsafe b) 1 0 of
        (False, u) \<Rightarrow> Panic ''pools: Buffer.unsafe is not 1''
      | (True, u) \<Rightarrow> PutBuffer (b\<lparr>unsafe := u\<rparr>) bufferPool)"

section \<open>The text the writers are to produce\<close>

text \<open>
  The expected output, over the unbounded integers: a placeholder is \<^verbatim>\<open>$\<close> and the decimal
  text of a number, a list is its placeholders joined by comma and space between
  parentheses.
\<close>

fun join :: "string \<Rightarrow> string list \<Rightarrow> string" where
  "join sep [] = []"
| "join sep [x] = x"
| "join sep (x # y # ys) = x @ sep @ join sep (y # ys)"

definition placeholder :: "int \<Rightarrow> string" where
  "placeholder v = CHR ''$'' # showInt v"

definition parenList :: "int list \<Rightarrow> string" where
  "parenList vs = ''('' @ join '', '' (map placeholder vs) @ '')''"

text \<open>Group number \<open>g\<close> of \<^verbatim>\<open>WriteGroups\<close>, with its leading space, and all the groups.\<close>

definition groupText :: "int list \<Rightarrow> int \<Rightarrow> nat \<Rightarrow> nat \<Rightarrow> string" where
  "groupText prefix offset groupLen g =
     '' '' @ parenList (prefix @ map (\<lambda>j. offset + int g * int groupLen + int j) [0..<groupLen])"

definition groupsText :: "int list \<Rightarrow> int \<Rightarrow> nat \<Rightarrow> nat \<Rightarrow> string" where
  "groupsText prefix offset groupLen groups =
     join '','' (map (groupText prefix offset groupLen) [0..<groups])"

text \<open>The \<open>num\<close> repetitions of \<^verbatim>\<open>WriteInterval\<close>.\<close>

definition intervalText :: "int \<Rightarrow> int \<Rightarrow> nat \<Rightarrow> string" where
  "intervalText start end num =
     '' '' @ parenList [start..end] @ concat (replicate (num - 1) ('', '' @ parenList [start..end]))"

section \<open>Digit sums and the width table\<close>

text \<open>The recursive equations are unfolded by hand, one step at a time.\<close>

declare ndigits.simps [simp del]
declare decimal.simps [simp del]
declare totalWidth_scan.simps [simp del]
declare writeGroup_loop.simps [simp del]
declare WriteGroups_loop.simps [simp del]
declare WriteInterval_nums.simps [simp del]
declare WriteInterval_loop.simps [simp del]

lemma ndigits_pow: "10 ^ k \<le> n \<Longrightarrow> n < 10 ^ Suc k \<Longrightarrow> ndigits n = Suc k"
proof (induction k arbitrary: n)
  case 0
  then show ?case by (simp add: ndigits.simps)
next
  case (Suc k)
  have "10 ^ k \<le> n div 10" using Suc.prems by simp
  moreover have "n div 10 < 10 ^ Suc k" using Suc.prems by simp
  ultimately have "ndigits (n div 10) = Suc k" by (rule Suc.IH)
  moreover have "(1::nat) \<le> 10 ^ k" by simp
  then have "(10::nat) \<le> 10 ^ Suc k" by simp
  then have "\<not> n < 10" using Suc.prems(1) by linarith
  ultimately show ?case by (subst ndigits.simps) simp
qed

lemma bruteWidth_digitSum: "bruteWidth n e = digitSum n + n * e"
  by (simp add: bruteWidth_def digitSum_def sum.distrib)

lemma digitSum_Suc: "digitSum (Suc n) = digitSum n + ndigits (Suc n)"
  by (simp add: digitSum_def)

lemma digitSum_block_add:
  "Suc a = 10 ^ k \<Longrightarrow> a + d < 10 ^ Suc k \<Longrightarrow> digitSum (a + d) = digitSum a + d * Suc k"
proof (induction d)
  case 0
  show ?case by simp
next
  case (Suc d)
  have "10 ^ k \<le> Suc (a + d)" using Suc.prems(1) by linarith
  moreover have "Suc (a + d) < 10 ^ Suc k" using Suc.prems(2) by simp
  ultimately have "ndigits (Suc (a + d)) = Suc k" by (rule ndigits_pow)
  moreover have "digitSum (a + d) = digitSum a + d * Suc k"
    using Suc.prems by (intro Suc.IH) simp_all
  ultimately show ?case by (simp add: digitSum_Suc)
qed

lemma digitSum_block:
  assumes "10 ^ k - 1 \<le> n" and "n < 10 ^ Suc k"
  shows "digitSum n = digitSum (10 ^ k - 1) + (n - (10 ^ k - 1)) * Suc k"
proof -
  have "Suc (10 ^ k - 1) = (10::nat) ^ k" by simp
  moreover have "(10 ^ k - 1) + (n - (10 ^ k - 1)) = n" using assms(1) by simp
  ultimately show ?thesis
    using digitSum_block_add [of "10 ^ k - 1" k "n - (10 ^ k - 1)"] assms(2) by simp
qed

lemma digitSum_0: "digitSum 0 = 0"
  by (simp add: digitSum_def)

lemma digitSum_step:
  "a + 1 = 10 ^ k \<Longrightarrow> a + d < 10 * 10 ^ k \<Longrightarrow> digitSum (a + d) = digitSum a + d * (k + 1)"
  using digitSum_block_add [of a k d] by simp

lemma digitSum_1: "digitSum 9 = 9"
  using digitSum_step [of 0 0 9] digitSum_0 by simp

lemma digitSum_2: "digitSum 99 = 189"
  using digitSum_step [of 9 1 90] digitSum_1 by simp

lemma digitSum_3: "digitSum 999 = 2889"
  using digitSum_step [of 99 2 900] digitSum_2 by simp

lemma digitSum_4: "digitSum 9999 = 38889"
  using digitSum_step [of 999 3 9000] digitSum_3 by simp

lemma digitSum_5: "digitSum 99999 = 488889"
  using digitSum_step [of 9999 4 90000] digitSum_4 by simp

lemma digitSum_6: "digitSum 999999 = 5888889"
  using digitSum_step [of 99999 5 900000] digitSum_5 by simp

lemma digitSum_7: "digitSum 9999999 = 68888889"
  using digitSum_step [of 999999 6 9000000] digitSum_6 by simp

lemma digitSum_8: "digitSum 99999999 = 788888889"
  using digitSum_step [of 9999999 7 90000000] digitSum_7 by simp

lemma digitSum_9: "digitSum 999999999 = 8888888889"
  using digitSum_step [of 99999999 8 900000000] digitSum_8 by simp

lemma digitSum_10: "digitSum 9999999999 = 98888888889"
  using digitSum_step [of 999999999 9 9000000000] digitSum_9 by simp

lemma digitSum_11: "digitSum 99999999999 = 1088888888889"
  using digitSum_step [of 9999999999 10 90000000000] digitSum_10 by simp

lemma digitSum_12: "digitSum 999999999999 = 11888888888889"
  using digitSum_step [of 99999999999 11 900000000000] digitSum_11 by simp

lemma digitSum_13: "digitSum 9999999999999 = 128888888888889"
  using digitSum_step [of 999999999999 12 9000000000000] digitSum_12 by simp

lemma digitSum_14: "digitSum 99999999999999 = 1388888888888889"
  using digitSum_step [of 9999999999999 13 90000000000000] digitSum_13 by simp

lemma digitSum_15: "digitSum 999999999999999 = 14888888888888889"
  using digitSum_step [of 99999999999999 14 900000000000000] digitSum_14 by simp

lemma digitSum_16: "digitSum 9999999999999999 = 158888888888888889"
  using digitSum_step [of 999999999999999 15 9000000000000000] digitSum_15 by simp

lemma digitSum_17: "digitSum 99999999999999999 = 1688888888888888889"
  using digitSum_step [of 9999999999999999 16 90000000000000000] digitSum_16 by simp

lemmas digitSum_nines = digitSum_0 digitSum_1 digitSum_2 digitSum_3 digitSum_4 digitSum_5 digitSum_6 digitSum_7 digitSum_8 digitSum_9 digitSum_10 digitSum_11 digitSum_12 digitSum_13 digitSum_14 digitSum_15 digitSum_16 digitSum_17

lemma length_cache: "length cache = 18"
  by (simp add: cache_def)

lemma row_cases:
  "r < 18 \<Longrightarrow> r \<in> {17, 16, 15, 14, 13, 12, 11, 10, 9, 8, 7, 6, 5, 4, 3, 2, 1, 0 :: nat}"
  by simp arith

lemma cache_fst: "i < 18 \<Longrightarrow> fst (cache ! i) = of_nat (10 ^ i - 1)"
  by (drule row_cases) (auto simp: cache_def)

lemma cache_sint: "i < 18 \<Longrightarrow> sint (fst (cache ! i)) = 10 ^ i - 1"
  by (drule row_cases) (auto simp: cache_def)

lemma cache_snd: "i < 18 \<Longrightarrow> snd (cache ! i) = of_nat (digitSum (10 ^ i - 1))"
  by (drule row_cases) (auto simp: cache_def digitSum_nines)

lemma of_nat_nat_sint: "0 \<le> sint (n::int64) \<Longrightarrow> of_nat (nat (sint n)) = n"
  by simp

lemma totalWidth_scan_eq:
  assumes "3 \<le> i" and "i < 18" and "10 ^ (i - 1) - 1 < sint n" and "sint n \<le> 10 ^ 17 - 1"
  shows "totalWidth_scan n add i = Ok (of_nat (digitSum (nat (sint n))) + n * add)"
  using assms
proof (induction n add i rule: totalWidth_scan.induct)
  case (1 n add i)
  define N where "N = nat (sint n)"
  have npos: "0 \<le> sint n"
    using "1.prems"(3) by (smt (verit) zero_less_power)
  have nN: "of_nat N = n" unfolding N_def using npos by (rule of_nat_nat_sint)
  have i18: "\<not> length cache \<le> i" using "1.prems"(2) by (simp add: length_cache)
  obtain k where k: "i = Suc k" using "1.prems"(1) by (cases i) simp_all
  have k18: "k < 18" using "1.prems"(2) k by simp
  show ?case
  proof (cases "n \<le>s fst (cache ! i)")
    case True
    then have "sint n \<le> 10 ^ i - 1"
      using cache_sint [OF "1.prems"(2)] by (simp add: word_sle_eq)
    then have up: "N < 10 ^ Suc k" unfolding N_def k using npos
      by (simp add: nat_less_iff)
    have "int (10 ^ k - 1) \<le> sint n" using "1.prems"(3) k by (simp add: of_nat_diff)
    then have lo: "10 ^ k - 1 \<le> N" unfolding N_def by linarith
    have "digitSum N = digitSum (10 ^ k - 1) + (N - (10 ^ k - 1)) * Suc k"
      by (rule digitSum_block [OF lo up])
    then have "(of_nat (digitSum N) :: int64) =
        (of_nat N - of_nat (10 ^ k - 1)) * of_nat (Suc k) + of_nat (digitSum (10 ^ k - 1))"
      using lo by (simp only: of_nat_add of_nat_mult of_nat_diff add.commute)
    then have "(n - fst (cache ! (i - 1))) * of_nat i + snd (cache ! (i - 1)) + n * add =
        of_nat (digitSum N) + n * add"
      using cache_fst [OF k18] cache_snd [OF k18] k nN by simp
    then show ?thesis
      using i18 True by (subst totalWidth_scan.simps) (simp add: N_def)
  next
    case False
    then have gt: "10 ^ i - 1 < sint n"
      using cache_sint [OF "1.prems"(2)] by (simp add: word_sle_eq)
    have "i \<noteq> 17" using gt "1.prems"(4) by auto
    then have "i + 1 < 18" using "1.prems"(2) by simp
    moreover have "3 \<le> i + 1" using "1.prems"(1) by simp
    moreover have "10 ^ (i + 1 - 1) - 1 < sint n" using gt by simp
    ultimately have "totalWidth_scan n add (i + 1) = Ok (of_nat (digitSum (nat (sint n))) + n * add)"
      using "1.IH" [OF i18 False] "1.prems"(4) by blast
    then show ?thesis
      using i18 False by (subst totalWidth_scan.simps) simp
  qed
qed

lemma digitSum_small: "n < 10 \<Longrightarrow> digitSum n = n"
  using digitSum_step [of 0 0 n] by (simp add: digitSum_0)

lemma digitSum_two: "9 \<le> n \<Longrightarrow> n < 100 \<Longrightarrow> digitSum n = 9 + (n - 9) * 2"
  using digitSum_step [of 9 1 "n - 9"] by (simp add: digitSum_1)

lemma sint_of_nat_small: "m < 2 ^ 63 \<Longrightarrow> sint (of_nat m :: int64) = int m"
  by (simp add: signed_of_nat signed_take_bit_int_eq_self)

lemma totalWidth_eq:
  assumes "1 \<le> sint n" and "sint n \<le> 99999999999999999"
  shows "totalWidth n add = Ok (of_nat (digitSum (nat (sint n))) + n * add)"
proof -
  define N where "N = nat (sint n)"
  have npos: "0 \<le> sint n" using assms(1) by simp
  have nN: "of_nat N = n" unfolding N_def using npos by (rule of_nat_nat_sint)
  have not0: "\<not> n \<le>s 0" using assms(1) by (simp add: word_sle_eq)
  have last: "fst (cache ! (length cache - 1)) = 99999999999999999" by (simp add: cache_def)
  have notbig: "\<not> fst (cache ! (length cache - 1)) <s n"
    using assms(2) unfolding last by (simp add: word_sless_alt)
  consider (a) "sint n < 10" | (b) "10 \<le> sint n" "sint n < 100" | (c) "100 \<le> sint n" by linarith
  then show ?thesis
  proof cases
    case a
    then have "N < 10" unfolding N_def using npos by linarith
    then have "digitSum N = N" by (rule digitSum_small)
    then have "of_nat (digitSum N) + n * add = n + n * add" using nN by simp
    moreover have "n <s 10" using a by (simp add: word_sless_alt)
    ultimately show ?thesis using not0 by (simp add: totalWidth_def N_def)
  next
    case b
    then have "9 \<le> N" "N < 100" unfolding N_def by linarith+
    then have "digitSum N = 9 + (N - 9) * 2" by (rule digitSum_two)
    then have "(of_nat (digitSum N) :: int64) = 9 + (of_nat N - 9) * 2"
      using \<open>9 \<le> N\<close> by (simp add: of_nat_diff)
    then have "of_nat (digitSum N) + n * add = n * 2 - 9 + n * add" using nN by simp
    moreover have "\<not> n <s 10" "n <s 100" using b by (simp_all add: word_sless_alt)
    ultimately show ?thesis using not0 by (simp add: totalWidth_def N_def)
  next
    case c
    then have "\<not> n <s 10" "\<not> n <s 100" by (simp_all add: word_sless_alt)
    moreover have "totalWidth_scan n add 3 = Ok (of_nat (digitSum (nat (sint n))) + n * add)"
      using c assms(2) by (intro totalWidth_scan_eq) simp_all
    ultimately show ?thesis using not0 notbig by (simp add: totalWidth_def)
  qed
qed

lemma totalWidth_nonpos: "sint n \<le> 0 \<Longrightarrow> totalWidth n add = Ok add"
  by (simp add: totalWidth_def word_sle_eq)

lemma totalWidth_beyond: "99999999999999999 < sint n \<Longrightarrow> totalWidth n add = Ok 0"
  by (simp add: totalWidth_def word_sle_eq word_sless_alt cache_def)

lemma totalWidth_brute:
  assumes "1 \<le> sint n" and "sint n \<le> 99999999999999999" and "0 \<le> sint add"
  shows "totalWidth n add = Ok (of_nat (bruteWidth (nat (sint n)) (nat (sint add))))"
proof -
  have "of_nat (nat (sint n)) = n" "of_nat (nat (sint add)) = add"
    using assms(1,3) by (simp_all add: of_nat_nat_sint)
  then have "(of_nat (bruteWidth (nat (sint n)) (nat (sint add))) :: int64) =
      of_nat (digitSum (nat (sint n))) + n * add"
    by (simp add: bruteWidth_digitSum)
  then show ?thesis using totalWidth_eq [OF assms(1,2)] by simp
qed

section \<open>Claims about the width calculator\<close>

text \<open>
  C1, as amended. For \<open>1 \<le> n \<le> 99999999999999999\<close> and \<open>extraPerItem \<ge> 0\<close> such that the
  brute-force sum of (number of decimal digits of \<open>i\<close>) + \<open>extraPerItem\<close> over \<open>i\<close> in
  \<open>[1, n]\<close> fits a signed 64-bit integer, \<open>totalWidth\<close> returns exactly that sum; and for
  every \<open>n \<le> 0\<close> it returns \<open>extraPerItem\<close>.
\<close>

theorem totalWidth_exact:
  "(1 \<le> sint n \<and> sint n \<le> 99999999999999999 \<and> 0 \<le> sint add
      \<and> bruteWidth (nat (sint n)) (nat (sint add)) < 2 ^ 63
     \<longrightarrow> (\<exists>r. totalWidth n add = Ok r \<and> sint r = int (bruteWidth (nat (sint n)) (nat (sint add)))))
   \<and> (sint n \<le> 0 \<longrightarrow> totalWidth n add = Ok add)"
  using totalWidth_brute [of n add] totalWidth_nonpos [of n add]
  by (auto simp: sint_of_nat_small)

theorem totalWidth_exact_witness:
  "1 \<le> sint (5 :: int64) \<and> sint (5 :: int64) \<le> 99999999999999999 \<and> 0 \<le> sint (3 :: int64)
     \<and> bruteWidth (nat (sint (5 :: int64))) (nat (sint (3 :: int64))) < 2 ^ 63
     \<and> (\<exists>r. totalWidth 5 3 = Ok r \<and> sint r = int (bruteWidth 5 3))
     \<and> sint (0 :: int64) \<le> 0 \<and> totalWidth 0 3 = Ok 3"
  using totalWidth_exact [of 5 3] totalWidth_exact [of 0 3]
  by (simp add: bruteWidth_digitSum digitSum_small)

text \<open>
  Without the bound the sum can leave the 64 bits and the result wraps around:
  \<open>totalWidth 2 (2 ^ 62)\<close> is negative, the sum is \<open>2 ^ 63 + 2\<close>.
\<close>

theorem totalWidth_overflow_counterexample:
  "1 \<le> sint (2 :: int64) \<and> sint (2 :: int64) \<le> 99999999999999999
     \<and> 0 \<le> sint (4611686018427387904 :: int64)
     \<and> \<not> (\<exists>r. totalWidth 2 4611686018427387904 = Ok r
            \<and> sint r = int (bruteWidth (nat (sint (2 :: int64)))
                                (nat (sint (4611686018427387904 :: int64)))))"
  by (simp add: totalWidth_def word_sle_eq word_sless_alt bruteWidth_digitSum digitSum_small)

section \<open>The clamp and the reservation\<close>

lemma intSize_eq: "intSize = 63"
  by (simp add: intSize_def)

lemma signed_drop_bit_63: "signed_drop_bit 63 (x :: int64) = (if x <s 0 then - 1 else 0)"
proof (rule bit_eqI)
  fix k
  assume "possible_bit TYPE(int64) k"
  then have k: "k < 64" by (simp add: possible_bit_word)
  have neg: "x <s 0 \<longleftrightarrow> bit x 63"
    using bit_last_iff [of x] by (simp add: word_sless_alt)
  show "bit (signed_drop_bit 63 x) k = bit (if x <s 0 then - 1 else 0 :: int64) k"
    using k by (cases "k = 0") (auto simp: bit_signed_drop_bit_iff neg)
qed

lemma clamp_eq: "clamp x = (if x <s 0 then 0 else x)"
  by (simp add: clamp_def intSize_eq signed_drop_bit_63)

text \<open>
  C9. For every 64-bit signed \<open>x\<close>, the bitwise clamp of \<^verbatim>\<open>grow\<close>, \<^verbatim>\<open>x & ^(x >> 63)\<close>, is
  \<open>max x 0\<close>, the least integer included.
\<close>

theorem clamp_is_max: "sint (clamp x) = max (sint x) 0"
  by (simp add: clamp_eq word_sless_alt max_def)

theorem clamp_is_max_witness:
  "sint (clamp (- 9223372036854775808)) = max (sint (- 9223372036854775808 :: int64)) 0
   \<and> sint (clamp (- 9223372036854775808)) = 0
   \<and> sint (clamp 42) = 42 \<and> sint (clamp (- 1)) = 0 \<and> sint (clamp 9223372036854775807) = 9223372036854775807"
  using clamp_is_max [of "- 9223372036854775808"] clamp_is_max [of 42] clamp_is_max [of "- 1"]
    clamp_is_max [of 9223372036854775807]
  by simp

lemma totalWidth_total: "\<exists>r. totalWidth n add = Ok r"
proof -
  consider "sint n \<le> 0" | "1 \<le> sint n" "sint n \<le> 99999999999999999" | "99999999999999999 < sint n"
    by linarith
  then show ?thesis
    by cases (simp_all add: totalWidth_nonpos totalWidth_eq totalWidth_beyond)
qed

lemma growSize_total: "\<exists>r. growSize start end num = Ok r \<and> 0 \<le> sint r"
proof -
  obtain width where "totalWidth (end - start + 1) 3 = Ok width"
    using totalWidth_total by blast
  then show ?thesis
    by (simp add: growSize_def clamp_eq word_sless_alt Let_def)
qed

section \<open>Sequences of writes\<close>

lemma canHold_less: "canHold room (a + b) \<Longrightarrow> canHold room a"
  by (simp add: canHold_def)

lemma andThen_assoc: "andThen (andThen m g) f = andThen m (\<lambda>x. andThen (g x) f)"
  by (cases m) simp_all

lemma andThen_Ok: "andThen m (\<lambda>x. Ok x) = m"
  by (cases m) simp_all

lemma WriteString_Nil: "WriteString room w [] = Ok w"
  by (simp add: WriteString_def)

lemma WriteByte_eq: "WriteByte room w c = WriteString room w [c]"
  by (simp add: WriteByte_def WriteString_def)

lemma WriteString_seq:
  "andThen (WriteString room w a) (\<lambda>w1. WriteString room w1 b) = WriteString room w (a @ b)"
  using canHold_less [of room "length (buf w) + length a" "length b"]
  by (auto simp: WriteString_def add.assoc)

lemma WriteString_seq2:
  "andThen (WriteString room w a) (\<lambda>w1. andThen (WriteString room w1 b) f) =
     andThen (WriteString room w (a @ b)) f"
  using andThen_assoc [of "WriteString room w a" "\<lambda>w1. WriteString room w1 b" f]
  by (simp add: WriteString_seq)

lemmas write_simps = WriteInt_def WriteByte_eq WriteString_seq WriteString_seq2

lemma sint_succ: "sint (i :: int64) < sint e \<Longrightarrow> sint (i + 1) = sint i + 1"
  for e :: int64
  using sint_lt [of e] sint_ge [of i]
  by (simp add: sint_word_ariths signed_take_bit_int_eq_self)

lemma sint_pred: "0 < sint (n :: int64) \<Longrightarrow> sint (n - 1) = sint n - 1"
  using sint_lt [of n]
  by (simp add: sint_word_ariths signed_take_bit_int_eq_self)

lemma WriteInterval_nums_eq:
  "WriteInterval_nums room w i e =
     WriteString room w (concat (map (\<lambda>v. '', $'' @ showInt v) [sint i + 1..sint e]))"
proof (induction room w i e rule: WriteInterval_nums.induct)
  case (1 room w i e)
  show ?case
  proof (cases "i <s e")
    case True
    then have lt: "sint i < sint e" by (simp add: word_sless_alt)
    have s: "sint (i + 1) = sint i + 1" using lt by (rule sint_succ)
    have u: "[sint i + 1..sint e] = (sint i + 1) # [sint i + 1 + 1..sint e]"
      using lt by (subst upto_rec1) simp_all
    have ih: "\<And>w2. WriteInterval_nums room w2 (i + 1) e =
        WriteString room w2 (concat (map (\<lambda>v. '', $'' @ showInt v) [sint i + 1 + 1..sint e]))"
      using "1.IH" [OF True] by (simp add: s)
    show ?thesis
      using True
      by (subst WriteInterval_nums.simps, subst u) (simp add: ih write_simps Itoa_def s)
  next
    case False
    then have "[sint i + 1..sint e] = []" by (simp add: word_sless_alt)
    then show ?thesis
      using False by (subst WriteInterval_nums.simps) (simp add: WriteString_Nil)
  qed
qed

lemma join_Cons: "join sep (x # xs) = x @ concat (map (\<lambda>y. sep @ y) xs)"
  by (induction xs arbitrary: x) simp_all

lemma parenList_upto:
  "s \<le> e \<Longrightarrow> parenList [s..e] =
     ''($'' @ showInt s @ concat (map (\<lambda>v. '', $'' @ showInt v) [s + 1..e]) @ '')''"
proof -
  assume "s \<le> e"
  then have "[s..e] = s # [s + 1..e]" by (subst upto_rec1) simp_all
  then show ?thesis
    by (simp add: parenList_def join_Cons placeholder_def comp_def)
qed

lemma interval_body:
  assumes "sint start \<le> sint e"
  shows "andThen (WriteString room w (pre @ ''($'')) (\<lambda>w1.
         andThen (WriteInt room w1 start) (\<lambda>w2.
         andThen (WriteInterval_nums room w2 start e) (\<lambda>w3.
         andThen (WriteByte room w3 CHR '')'') f))) =
     andThen (WriteString room w (pre @ parenList [sint start..sint e])) f"
  by (simp add: WriteInterval_nums_eq write_simps Itoa_def parenList_upto [OF assms])

lemma WriteInterval_loop_eq:
  assumes "sint start \<le> sint e"
  shows "WriteInterval_loop room w start e num =
     WriteString room w (concat (replicate (nat (sint num)) ('', '' @ parenList [sint start..sint e])))"
  using assms
proof (induction room w start e num rule: WriteInterval_loop.induct)
  case (1 room w start e num)
  show ?case
  proof (cases "0 <s num")
    case True
    then have pos: "0 < sint num" by (simp add: word_sless_alt)
    have n: "nat (sint num) = Suc (nat (sint (num - 1)))"
      using pos by (simp add: sint_pred)
    have ih: "\<And>w4. WriteInterval_loop room w4 start e (num - 1) =
        WriteString room w4 (concat (replicate (nat (sint (num - 1)))
          ('', '' @ parenList [sint start..sint e])))"
      using "1.IH" [OF True] "1.prems" by simp
    have "WriteInterval_loop room w start e num =
        andThen (WriteString room w ('', '' @ ''($'')) (\<lambda>w1.
        andThen (WriteInt room w1 start) (\<lambda>w2.
        andThen (WriteInterval_nums room w2 start e) (\<lambda>w3.
        andThen (WriteByte room w3 CHR '')'') (\<lambda>w4.
        WriteInterval_loop room w4 start e (num - 1)))))"
      using True by (subst WriteInterval_loop.simps) simp
    also have "\<dots> = andThen (WriteString room w ('', '' @ parenList [sint start..sint e]))
        (\<lambda>w4. WriteInterval_loop room w4 start e (num - 1))"
      by (rule interval_body [OF "1.prems"])
    finally show ?thesis by (simp add: ih n WriteString_seq)
  next
    case False
    then have "nat (sint num) = 0" by (simp add: word_sless_alt)
    then show ?thesis
      using False by (subst WriteInterval_loop.simps) (simp add: WriteString_Nil)
  qed
qed

lemma WriteInterval_valid:
  assumes "0 \<le> sint start" and "sint start < sint e" and "num \<noteq> 0"
  shows "WriteInterval room w start e num =
     andThen (grow room w start e num) (\<lambda>w0.
     andThen (WriteString room w0 (intervalText (sint start) (sint e) (Suc (nat (sint (num - 1))))))
       (\<lambda>w5. Ok (None, w5)))"
proof -
  have le: "sint start \<le> sint e" using assms(2) by simp
  have valid: "\<not> (start <s 0 \<or> e \<le>s start \<or> num = 0)"
    using assms by (simp add: word_sless_alt word_sle_eq)
  have body: "\<And>w0 f. andThen (WriteString room w0 '' ($'') (\<lambda>w1.
         andThen (WriteInt room w1 start) (\<lambda>w2.
         andThen (WriteInterval_nums room w2 start e) (\<lambda>w3.
         andThen (WriteByte room w3 CHR '')'') f))) =
     andThen (WriteString room w0 ('' '' @ parenList [sint start..sint e])) f"
    using interval_body [OF le, of room _ "'' ''"] by simp
  show ?thesis
    using valid
    by (simp add: WriteInterval_def body WriteInterval_loop_eq [OF le] WriteString_seq2
        intervalText_def)
qed

section \<open>What WriteInterval writes\<close>

lemma grow_eq:
  "growSize start e num = Ok r \<Longrightarrow> 0 \<le> sint r \<Longrightarrow>
     grow room w start e num =
       (if r = 0 \<or> canHold room (length (buf w) + nat (sint r)) then Ok w
        else Panic ''bytes.Buffer: too large'')"
  by (simp add: grow_def Grow_def word_sless_alt)

lemma intervalText_not_Nil: "intervalText s e n \<noteq> []"
  by (simp add: intervalText_def)

text \<open>
  C3, as amended. For \<open>start \<ge> 0\<close>, \<open>end > start\<close> and \<open>num \<ge> 1\<close>: when the buffer can hold
  the size that \<open>grow\<close> reserves and can hold the text, \<open>WriteInterval\<close> returns no error and
  appends the parenthesised list of the placeholders \<open>start, \<dots>, end\<close> after a space,
  followed by \<open>num - 1\<close> more copies of the list, each after a comma and a space; when
  either does not fit, the call panics with \<^verbatim>\<open>bytes.Buffer: too large\<close>.
\<close>

theorem WriteInterval_output:
  assumes "0 \<le> sint start" and "sint start < sint e" and "1 \<le> sint num"
  shows "\<exists>r. growSize start e num = Ok r \<and>
     WriteInterval room w start e num =
       (if canHold room (length (buf w) + nat (sint r))
           \<and> canHold room (length (buf w)
                 + length (intervalText (sint start) (sint e) (nat (sint num))))
        then Ok (None, w\<lparr>buf := buf w @ intervalText (sint start) (sint e) (nat (sint num))\<rparr>)
        else Panic ''bytes.Buffer: too large'')"
proof -
  obtain r where r: "growSize start e num = Ok r" "0 \<le> sint r"
    using growSize_total by blast
  have ne: "num \<noteq> 0" using assms(3) by auto
  have n: "Suc (nat (sint (num - 1))) = nat (sint num)"
    using assms(3) by (simp add: sint_pred)
  define T where "T = intervalText (sint start) (sint e) (nat (sint num))"
  have T: "T \<noteq> []" unfolding T_def by (rule intervalText_not_Nil)
  have less: "canHold room (length (buf w) + length T) \<Longrightarrow> r = 0 \<Longrightarrow>
      canHold room (length (buf w) + nat (sint r))"
    by (simp add: canHold_def)
  have "WriteInterval room w start e num =
      andThen (grow room w start e num) (\<lambda>w0.
      andThen (WriteString room w0 T) (\<lambda>w5. Ok (None, w5)))"
    unfolding T_def n [symmetric] by (rule WriteInterval_valid [OF assms(1,2) ne])
  also have "\<dots> = (if canHold room (length (buf w) + nat (sint r))
           \<and> canHold room (length (buf w) + length T)
        then Ok (None, w\<lparr>buf := buf w @ T\<rparr>)
        else Panic ''bytes.Buffer: too large'')"
    using T less by (auto simp: grow_eq [OF r] WriteString_def canHold_def)
  finally show ?thesis using r(1) unfolding T_def by blast
qed

lemma growSize_0_4_2: "growSize 0 4 2 = Ok 42"
  by (simp add: growSize_def totalWidth_def word_sle_eq word_sless_alt clamp_eq)

theorem WriteInterval_output_witness:
  "0 \<le> sint (0 :: int64) \<and> sint (0 :: int64) < sint (4 :: int64) \<and> 1 \<le> sint (2 :: int64)
   \<and> growSize 0 4 2 = Ok 42
   \<and> canHold 64 (length (buf \<lparr>unsafe = 0, buf = []\<rparr>) + nat (sint (42 :: int64)))
   \<and> intervalText (sint (0 :: int64)) (sint (4 :: int64)) (nat (sint (2 :: int64))) =
        '' ($0, $1, $2, $3, $4), ($0, $1, $2, $3, $4)''
   \<and> WriteInterval 64 \<lparr>unsafe = 0, buf = []\<rparr> 0 4 2 =
       Ok (None, \<lparr>unsafe = 0, buf = '' ($0, $1, $2, $3, $4), ($0, $1, $2, $3, $4)''\<rparr>)
   \<and> WriteInterval 42 \<lparr>unsafe = 0, buf = []\<rparr> 0 4 2 = Panic ''bytes.Buffer: too large''"
proof -
  have t: "intervalText 0 4 2 = '' ($0, $1, $2, $3, $4), ($0, $1, $2, $3, $4)''"
    by (simp add: intervalText_def parenList_def placeholder_def showInt_def digit_def
        decimal.simps upto_rec1)
  show ?thesis
    using WriteInterval_output [of 0 4 2 64 "\<lparr>unsafe = 0, buf = []\<rparr>"]
      WriteInterval_output [of 0 4 2 42 "\<lparr>unsafe = 0, buf = []\<rparr>"]
    by (simp add: growSize_0_4_2 t canHold_def)
qed

text \<open>
  With room for \<open>2 ^ 48\<close> bytes, \<open>WriteInterval 0 1 (2 ^ 62)\<close> has valid arguments and panics
  in \<open>grow\<close>, which asks for \<open>2 ^ 63 - 2\<close> bytes.
\<close>

theorem WriteInterval_too_large_counterexample:
  "0 \<le> sint (0 :: int64) \<and> sint (0 :: int64) < sint (1 :: int64)
   \<and> 1 \<le> sint (4611686018427387904 :: int64)
   \<and> growSize 0 1 4611686018427387904 = Ok 9223372036854775806
   \<and> WriteInterval 281474976710656 \<lparr>unsafe = 0, buf = []\<rparr> 0 1 4611686018427387904 =
       Panic ''bytes.Buffer: too large''"
proof -
  have g: "growSize 0 1 4611686018427387904 = Ok 9223372036854775806"
    by (simp add: growSize_def totalWidth_def word_sle_eq word_sless_alt clamp_eq)
  have "grow 281474976710656 \<lparr>unsafe = 0, buf = []\<rparr> 0 1 4611686018427387904 =
      Panic ''bytes.Buffer: too large''"
    by (simp add: grow_def g Grow_def word_sless_alt canHold_def)
  then show ?thesis
    by (simp add: g WriteInterval_def word_sless_alt word_sle_eq)
qed

section \<open>What WriteGroups writes\<close>

lemma upt_0_Suc: "[0..<Suc k] = 0 # map Suc [0..<k]"
  by (simp add: upt_conv_Cons map_Suc_upt del: upt_Suc)

lemma writeGroup_prefix_eq:
  "writeGroup_prefix room w prefix =
     WriteString room w (concat (map (\<lambda>v. Itoa v @ '', $'') prefix))"
  by (induction prefix arbitrary: w) (simp_all add: WriteString_Nil write_simps)

lemma writeGroup_loop_eq:
  "writeGroup_loop room w i offset groupLen =
     WriteString room w (concat (map (\<lambda>j. '', $'' @ Itoa (offset + 1 + of_nat j))
       [0..<nat (sint groupLen - sint i)]))"
proof (induction room w i offset groupLen rule: writeGroup_loop.induct)
  case (1 room w i offset groupLen)
  show ?case
  proof (cases "i <s groupLen")
    case True
    then have lt: "sint i < sint groupLen" by (simp add: word_sless_alt)
    have s: "sint (i + 1) = sint i + 1" using lt by (rule sint_succ)
    have k: "nat (sint groupLen - sint i) = Suc (nat (sint groupLen - sint (i + 1)))"
      using lt by (simp add: s)
    have ih: "\<And>w2. writeGroup_loop room w2 (i + 1) (offset + 1) groupLen =
        WriteString room w2 (concat (map (\<lambda>j. '', $'' @ Itoa (offset + 1 + 1 + of_nat j))
          [0..<nat (sint groupLen - sint (i + 1))]))"
      using "1.IH" [OF True] by simp
    show ?thesis
      using True
      by (subst writeGroup_loop.simps)
        (simp add: ih k upt_0_Suc write_simps comp_def add.assoc del: upt_Suc)
  next
    case False
    then have "nat (sint groupLen - sint i) = 0" by (simp add: word_sless_alt)
    then show ?thesis
      using False by (subst writeGroup_loop.simps) (simp add: WriteString_Nil)
  qed
qed

lemma writeGroup_eq:
  "writeGroup room w prefix offset groupLen =
     andThen (WriteString room w (groupBytes prefix offset groupLen)) (\<lambda>w5. Ok (w5, groupLen))"
  unfolding writeGroup_def writeGroup_prefix_eq writeGroup_loop_eq
  by (simp add: write_simps groupBytes_def)

lemma WriteGroups_loop_eq:
  "WriteGroups_loop room w prefix offset groupLen groups =
     WriteString room w (concat (map (\<lambda>g. '','' @ groupBytes prefix (offset + of_nat g * groupLen) groupLen)
       [0..<nat (sint groups)]))"
proof (induction room w prefix offset groupLen groups rule: WriteGroups_loop.induct)
  case (1 room w prefix offset groupLen groups)
  show ?case
  proof (cases "0 <s groups")
    case True
    then have pos: "0 < sint groups" by (simp add: word_sless_alt)
    have n: "nat (sint groups) = Suc (nat (sint (groups - 1)))"
      using pos by (simp add: sint_pred)
    have ih: "\<And>w2. WriteGroups_loop room w2 prefix (offset + groupLen) groupLen (groups - 1) =
        WriteString room w2
          (concat (map (\<lambda>g. '','' @ groupBytes prefix (offset + groupLen + of_nat g * groupLen) groupLen)
            [0..<nat (sint (groups - 1))]))"
      using "1.IH" [OF True] by simp
    have "WriteGroups_loop room w prefix offset groupLen groups =
        andThen (WriteString room w ('','' @ groupBytes prefix offset groupLen))
          (\<lambda>w2. WriteGroups_loop room w2 prefix (offset + groupLen) groupLen (groups - 1))"
      using True
      by (subst WriteGroups_loop.simps) (simp add: writeGroup_eq write_simps andThen_assoc)
    also have "\<dots> = WriteString room w (('','' @ groupBytes prefix offset groupLen)
        @ concat (map (\<lambda>g. '','' @ groupBytes prefix (offset + groupLen + of_nat g * groupLen) groupLen)
            [0..<nat (sint (groups - 1))]))"
      by (simp only: ih WriteString_seq)
    finally show ?thesis
      by (simp add: n upt_0_Suc comp_def algebra_simps del: upt_Suc)
  next
    case False
    then have "nat (sint groups) = 0" by (simp add: word_sless_alt)
    then show ?thesis
      using False by (subst WriteGroups_loop.simps) (simp add: WriteString_Nil)
  qed
qed

lemma WriteGroups_valid:
  assumes "0 \<le> sint offset" and "groups \<noteq> 0"
  shows "WriteGroups room w offset groupLen groups prefix =
     andThen (grow room w 0 groupLen groups) (\<lambda>w0.
     andThen (WriteString room w0 (groupBytes prefix offset groupLen
       @ concat (map (\<lambda>g. '','' @ groupBytes prefix (offset + groupLen + of_nat g * groupLen) groupLen)
           [0..<nat (sint (groups - 1))])))
       (\<lambda>w2. Ok (None, w2)))"
proof -
  have valid: "\<not> (offset <s 0 \<or> groups = 0)"
    using assms by (simp add: word_sless_alt)
  show ?thesis
    using valid
    by (simp add: WriteGroups_def writeGroup_eq WriteGroups_loop_eq andThen_assoc WriteString_seq2)
qed

lemma reserve_then_write:
  assumes "growSize start e num = Ok r" and "0 \<le> sint r" and "T \<noteq> []"
  shows "andThen (grow room w start e num) (\<lambda>w0.
         andThen (WriteString room w0 T) (\<lambda>w5. Ok (None, w5))) =
     (if canHold room (length (buf w) + nat (sint r)) \<and> canHold room (length (buf w) + length T)
      then Ok (None, w\<lparr>buf := buf w @ T\<rparr>)
      else Panic ''bytes.Buffer: too large'')"
proof -
  have "canHold room (length (buf w) + length T) \<Longrightarrow> r = 0 \<Longrightarrow>
      canHold room (length (buf w) + nat (sint r))"
    by (simp add: canHold_def)
  then show ?thesis
    using assms(3) by (auto simp: grow_eq [OF assms(1,2)] WriteString_def canHold_def)
qed

lemma sint_of_int_range:
  "- (2 ^ 63) \<le> X \<Longrightarrow> X < 2 ^ 63 \<Longrightarrow> sint (of_int X :: int64) = X"
  by (simp add: signed_of_int signed_take_bit_int_eq_self)

lemma Itoa_of_int: "- (2 ^ 63) \<le> X \<Longrightarrow> X < 2 ^ 63 \<Longrightarrow> Itoa (of_int X) = showInt X"
  by (simp add: Itoa_def sint_of_int_range)

lemma join_Cons2: "zs \<noteq> [] \<Longrightarrow> join sep (a # zs) = a @ sep @ join sep zs"
  by (cases zs) simp_all

lemma join_split:
  "join sep (ys @ x # xs) =
     concat (map (\<lambda>v. v @ sep) ys) @ x @ concat (map (\<lambda>y. sep @ y) xs)"
proof (induction ys)
  case Nil
  show ?case by (simp add: join_Cons)
next
  case (Cons a ys)
  have "join sep (a # (ys @ x # xs)) = a @ sep @ join sep (ys @ x # xs)"
    by (rule join_Cons2) simp
  then show ?case using Cons.IH by simp
qed

lemma dollar_shift:
  "concat (map (\<lambda>v. (CHR ''$'' # s v) @ '', '') P) @ CHR ''$'' # rest =
     CHR ''$'' # concat (map (\<lambda>v. s v @ '', $'') P) @ rest"
  by (induction P) simp_all

lemma parenList_split:
  "parenList (map sint p @ x # xs) =
     ''($'' @ concat (map (\<lambda>v. Itoa v @ '', $'') p) @ showInt x
       @ concat (map (\<lambda>y. '', $'' @ showInt y) xs) @ '')''"
proof -
  have "join '', '' (map placeholder (map sint p) @ placeholder x # map placeholder xs) =
      concat (map (\<lambda>v. v @ '', '') (map placeholder (map sint p))) @ placeholder x
        @ concat (map (\<lambda>y. '', '' @ y) (map placeholder xs))"
    by (rule join_split)
  also have "\<dots> = concat (map (\<lambda>v. (CHR ''$'' # Itoa v) @ '', '') p) @ CHR ''$'' # (showInt x
        @ concat (map (\<lambda>y. '', $'' @ showInt y) xs))"
    by (simp add: comp_def placeholder_def Itoa_def)
  also have "\<dots> = CHR ''$'' # concat (map (\<lambda>v. Itoa v @ '', $'') p) @ (showInt x
        @ concat (map (\<lambda>y. '', $'' @ showInt y) xs))"
    by (rule dollar_shift)
  finally show ?thesis by (simp add: parenList_def)
qed


lemma groupBytes_text:
  assumes "1 \<le> sint groupLen" and "- (2 ^ 63) \<le> b" and "b + sint groupLen \<le> 2 ^ 63"
  shows "groupBytes prefix (of_int b) groupLen =
     '' '' @ parenList (map sint prefix @ map (\<lambda>j. b + int j) [0..<nat (sint groupLen)])"
proof -
  define m where "m = nat (sint groupLen - 1)"
  have l: "nat (sint groupLen) = Suc m" unfolding m_def using assms(1) by simp
  have m: "int m = sint groupLen - 1" unfolding m_def using assms(1) by simp
  have first: "Itoa (of_int b) = showInt b"
    using assms by (intro Itoa_of_int) simp_all
  have rest: "map (\<lambda>j. '', $'' @ Itoa (of_int b + 1 + of_nat j)) [0..<m] =
      map (\<lambda>y. '', $'' @ showInt y) (map (\<lambda>j. b + 1 + int j) [0..<m])"
  proof -
    have "Itoa (of_int b + 1 + of_nat j) = showInt (b + 1 + int j)" if "j < m" for j
    proof -
      have "(of_int b + 1 + of_nat j :: int64) = of_int (b + 1 + int j)" by simp
      moreover have "b + 1 + int j < 2 ^ 63" using that m assms(3) by linarith
      moreover have "- (2 ^ 63) \<le> b + 1 + int j" using assms(2) by linarith
      ultimately show ?thesis by (simp only: Itoa_of_int)
    qed
    then show ?thesis by simp
  qed
  have nums: "map (\<lambda>j. b + int j) [0..<Suc m] = b # map (\<lambda>j. b + 1 + int j) [0..<m]"
    by (simp add: upt_0_Suc comp_def del: upt_Suc)
  show ?thesis
    unfolding groupBytes_def m_def [symmetric] rest first l nums parenList_split
    by simp
qed

lemma groupsText_Suc:
  "groupsText P off l (Suc m) =
     groupText P off l 0 @ concat (map (\<lambda>g. '','' @ groupText P off l (Suc g)) [0..<m])"
  by (simp add: groupsText_def upt_0_Suc join_Cons comp_def del: upt_Suc)

lemma groupText_not_Nil: "groupText P off l g \<noteq> []"
  by (simp add: groupText_def)

lemma WriteGroups_text:
  assumes "0 \<le> sint offset" and "1 \<le> sint groupLen" and "1 \<le> sint groups"
    and "sint offset + sint groupLen * sint groups \<le> 2 ^ 63"
  shows "WriteGroups room w offset groupLen groups prefix =
     andThen (grow room w 0 groupLen groups) (\<lambda>w0.
     andThen (WriteString room w0
       (groupsText (map sint prefix) (sint offset) (nat (sint groupLen)) (nat (sint groups))))
       (\<lambda>w2. Ok (None, w2)))"
proof -
  define m where "m = nat (sint (groups - 1))"
  define l where "l = nat (sint groupLen)"
  have G: "nat (sint groups) = Suc m" unfolding m_def using assms(3) by (simp add: sint_pred)
  have mG: "int m + 1 = sint groups" unfolding m_def using assms(3) by (simp add: sint_pred)
  have l: "int l = sint groupLen" unfolding l_def using assms(2) by simp
  have ne: "groups \<noteq> 0" using assms(3) by auto
  have mono: "k * sint groupLen \<le> sint groups * sint groupLen" if "k \<le> sint groups" for k
    using that assms(2) by (intro mult_right_mono) simp_all
  have g0: "groupBytes prefix offset groupLen = groupText (map sint prefix) (sint offset) l 0"
  proof -
    have "sint offset + sint groupLen \<le> 2 ^ 63"
      using mono [of 1] assms(3,4) by (simp add: mult.commute)
    then have "groupBytes prefix (of_int (sint offset)) groupLen =
        '' '' @ parenList (map sint prefix @ map (\<lambda>j. sint offset + int j) [0..<nat (sint groupLen)])"
      using assms(1,2) by (intro groupBytes_text) simp_all
    then show ?thesis by (simp add: groupText_def l_def)
  qed
  have gs: "groupBytes prefix (offset + groupLen + of_nat g * groupLen) groupLen =
      groupText (map sint prefix) (sint offset) l (Suc g)" if "g < m" for g
  proof -
    define b where "b = sint offset + int (Suc g) * sint groupLen"
    have w: "offset + groupLen + of_nat g * groupLen = of_int b"
      unfolding b_def by (simp add: algebra_simps)
    have "int g + 2 \<le> sint groups" using that mG by linarith
    then have "(int g + 2) * sint groupLen \<le> sint groups * sint groupLen" by (rule mono)
    then have hi: "b + sint groupLen \<le> 2 ^ 63"
      unfolding b_def using assms(4) by (simp add: algebra_simps)
    have "0 \<le> int (Suc g) * sint groupLen" using assms(2) by simp
    moreover have "- (2 ^ 63) \<le> (0 :: int)" by simp
    ultimately have lo: "- (2 ^ 63) \<le> b" unfolding b_def using assms(1) by linarith
    have "groupBytes prefix (of_int b) groupLen =
        '' '' @ parenList (map sint prefix @ map (\<lambda>j. b + int j) [0..<nat (sint groupLen)])"
      using assms(2) lo hi by (rule groupBytes_text)
    then show ?thesis unfolding w by (simp add: groupText_def l_def [symmetric] b_def l)
  qed
  have tail: "concat (map (\<lambda>g. '','' @ groupBytes prefix (offset + groupLen + of_nat g * groupLen) groupLen) [0..<m]) =
      concat (map (\<lambda>g. '','' @ groupText (map sint prefix) (sint offset) l (Suc g)) [0..<m])"
    using gs by (intro arg_cong [where f = concat] map_cong) simp_all
  have "groupBytes prefix offset groupLen
        @ concat (map (\<lambda>g. '','' @ groupBytes prefix (offset + groupLen + of_nat g * groupLen) groupLen)
            [0..<m]) =
      groupsText (map sint prefix) (sint offset) l (Suc m)"
    by (simp only: g0 tail groupsText_Suc)
  then show ?thesis
    using WriteGroups_valid [OF assms(1) ne, of room w groupLen prefix]
    by (simp only: m_def [symmetric] G l_def [symmetric])
qed

lemma groupsText_not_Nil: "0 < n \<Longrightarrow> groupsText P off l n \<noteq> []"
  by (cases n) (simp_all add: groupsText_Suc groupText_not_Nil)

lemma upt_0_2: "[0..<2] = [0, Suc 0]"
  by (simp add: numeral_2_eq_2)

text \<open>
  C2, as amended. For \<open>offset \<ge> 0\<close>, \<open>groupLen \<ge> 1\<close>, \<open>groups \<ge> 1\<close> and any prefix, with the
  last number \<open>offset + groupLen * groups - 1\<close> no larger than the largest \<^verbatim>\<open>int\<close>: when the
  buffer can hold the size that \<open>grow\<close> reserves and can hold the text, \<open>WriteGroups\<close>
  returns no error and appends the groups, joined by a bare comma, where group \<open>g\<close> is a
  space and the parenthesised list of the prefix placeholders followed by the placeholders
  \<open>offset + g * groupLen, \<dots>, offset + g * groupLen + groupLen - 1\<close>; when either does not
  fit, the call panics with \<^verbatim>\<open>bytes.Buffer: too large\<close>.
\<close>

theorem WriteGroups_output:
  assumes "0 \<le> sint offset" and "1 \<le> sint groupLen" and "1 \<le> sint groups"
    and "sint offset + sint groupLen * sint groups \<le> 2 ^ 63"
  shows "\<exists>r. growSize 0 groupLen groups = Ok r \<and>
     WriteGroups room w offset groupLen groups prefix =
       (if canHold room (length (buf w) + nat (sint r))
           \<and> canHold room (length (buf w) + length
                 (groupsText (map sint prefix) (sint offset) (nat (sint groupLen)) (nat (sint groups))))
        then Ok (None, w\<lparr>buf := buf w @
               groupsText (map sint prefix) (sint offset) (nat (sint groupLen)) (nat (sint groups))\<rparr>)
        else Panic ''bytes.Buffer: too large'')"
proof -
  obtain r where r: "growSize 0 groupLen groups = Ok r" "0 \<le> sint r"
    using growSize_total by blast
  have ne: "groupsText (map sint prefix) (sint offset) (nat (sint groupLen)) (nat (sint groups)) \<noteq> []"
    using assms(3) by (intro groupsText_not_Nil) simp
  show ?thesis
    using r(1) unfolding WriteGroups_text [OF assms] reserve_then_write [OF r ne]
    by blast
qed

lemma growSize_0_1_2: "growSize 0 1 2 = Ok 18"
  by (simp add: growSize_def totalWidth_def word_sle_eq word_sless_alt clamp_eq)

theorem WriteGroups_output_witness:
  "0 \<le> sint (2 :: int64) \<and> 1 \<le> sint (1 :: int64) \<and> 1 \<le> sint (2 :: int64)
   \<and> sint (2 :: int64) + sint (1 :: int64) * sint (2 :: int64) \<le> 2 ^ 63
   \<and> growSize 0 1 2 = Ok 18
   \<and> groupsText (map sint [1 :: int64]) (sint (2 :: int64)) (nat (sint (1 :: int64)))
        (nat (sint (2 :: int64))) = '' ($1, $2), ($1, $3)''
   \<and> WriteGroups 64 \<lparr>unsafe = 0, buf = []\<rparr> 2 1 2 [1] =
       Ok (None, \<lparr>unsafe = 0, buf = '' ($1, $2), ($1, $3)''\<rparr>)
   \<and> WriteGroups 18 \<lparr>unsafe = 0, buf = []\<rparr> 2 1 2 [1] = Panic ''bytes.Buffer: too large''"
proof -
  have t: "groupsText [1] 2 (Suc 0) 2 = '' ($1, $2), ($1, $3)''"
    by (simp add: groupsText_def groupText_def parenList_def placeholder_def showInt_def digit_def
        decimal.simps upt_0_2)
  show ?thesis
    using WriteGroups_output [of 2 1 2 64 "\<lparr>unsafe = 0, buf = []\<rparr>" "[1]"]
      WriteGroups_output [of 2 1 2 18 "\<lparr>unsafe = 0, buf = []\<rparr>" "[1]"]
    by (simp add: growSize_0_1_2 t canHold_def)
qed

text \<open>
  From the largest \<^verbatim>\<open>int\<close> the second number of the group wraps around to the least one,
  where the claim has \<open>2 ^ 63\<close>; and \<open>WriteGroups 0 1 (2 ^ 62)\<close>, with room for \<open>2 ^ 48\<close>
  bytes, panics in \<open>grow\<close>.
\<close>

theorem WriteGroups_wraps_counterexample:
  "0 \<le> sint (9223372036854775807 :: int64) \<and> 1 \<le> sint (2 :: int64) \<and> 1 \<le> sint (1 :: int64)
   \<and> WriteGroups 64 \<lparr>unsafe = 0, buf = []\<rparr> 9223372036854775807 2 1 [] =
       Ok (None, \<lparr>unsafe = 0, buf = '' ($9223372036854775807, $-9223372036854775808)''\<rparr>)
   \<and> groupsText [] 9223372036854775807 2 1 = '' ($9223372036854775807, $9223372036854775808)''
   \<and> 1 \<le> sint (4611686018427387904 :: int64)
   \<and> WriteGroups 281474976710656 \<lparr>unsafe = 0, buf = []\<rparr> 0 1 4611686018427387904 [] =
       Panic ''bytes.Buffer: too large''"
proof -
  have g: "growSize 0 2 1 = Ok 12"
    by (simp add: growSize_def totalWidth_def word_sle_eq word_sless_alt clamp_eq)
  have b: "groupBytes [] 9223372036854775807 2 = '' ($9223372036854775807, $-9223372036854775808)''"
    by (simp add: groupBytes_def Itoa_def showInt_def digit_def decimal.simps)
  have "WriteGroups 64 \<lparr>unsafe = 0, buf = []\<rparr> 9223372036854775807 2 1 [] =
      Ok (None, \<lparr>unsafe = 0, buf = '' ($9223372036854775807, $-9223372036854775808)''\<rparr>)"
    by (simp add: WriteGroups_valid grow_def g Grow_def word_sless_alt canHold_def b WriteString_def)
  moreover have "groupsText [] 9223372036854775807 2 1 = '' ($9223372036854775807, $9223372036854775808)''"
    by (simp add: groupsText_def groupText_def parenList_def placeholder_def showInt_def digit_def
        decimal.simps upt_0_2)
  moreover have "WriteGroups 281474976710656 \<lparr>unsafe = 0, buf = []\<rparr> 0 1 4611686018427387904 [] =
      Panic ''bytes.Buffer: too large''"
  proof -
    have g2: "growSize 0 1 4611686018427387904 = Ok 9223372036854775806"
      by (simp add: growSize_def totalWidth_def word_sle_eq word_sless_alt clamp_eq)
    have "grow 281474976710656 \<lparr>unsafe = 0, buf = []\<rparr> 0 1 4611686018427387904 =
        Panic ''bytes.Buffer: too large''"
      by (simp add: grow_def g2 Grow_def word_sless_alt canHold_def)
    then show ?thesis by (simp add: WriteGroups_def word_sless_alt)
  qed
  ultimately show ?thesis by simp
qed

lemma groupBytes_not_Nil: "groupBytes prefix offset groupLen \<noteq> []"
  by (simp add: groupBytes_def)




section \<open>Negative counts\<close>

lemma sint_pred_neg:
  "- 9223372036854775808 < sint (n :: int64) \<Longrightarrow> sint (n - 1) = sint n - 1"
  using sint_lt [of n]
  by (simp add: sint_word_ariths signed_take_bit_int_eq_self)

lemma length_concat_replicate: "length (concat (replicate k x)) = k * length x"
  by (induction k) simp_all

lemma intervalText_long: "k \<le> length (intervalText s e (Suc k))"
proof -
  have "k * 1 \<le> k * length ('', '' @ parenList [s..e])"
    by (intro mult_le_mono2) simp
  then show ?thesis by (simp add: intervalText_def length_concat_replicate)
qed

lemma WriteInterval_many_panics:
  assumes "0 \<le> sint start" and "sint start < sint e" and "num \<noteq> 0"
    and "room < nat (sint (num - 1))"
  shows "WriteInterval room w start e num = Panic ''bytes.Buffer: too large''"
proof -
  obtain r where r: "growSize start e num = Ok r" "0 \<le> sint r"
    using growSize_total by blast
  define T where "T = intervalText (sint start) (sint e) (Suc (nat (sint (num - 1))))"
  have "nat (sint (num - 1)) \<le> length T" unfolding T_def by (rule intervalText_long)
  then have "\<not> canHold room (length (buf w) + length T)"
    using assms(4) by (simp add: canHold_def)
  moreover have "T \<noteq> []" unfolding T_def by (rule intervalText_not_Nil)
  ultimately show ?thesis
    unfolding WriteInterval_valid [OF assms(1,2,3)] T_def [symmetric]
      reserve_then_write [OF r \<open>T \<noteq> []\<close>]
    by simp
qed

text \<open>
  C10, as amended. A negative count other than the least \<^verbatim>\<open>int\<close> passes validation and
  acts as a count of 1, as long as the buffer can hold the size that \<open>grow\<close> reserves for
  it: for \<open>offset \<ge> 0\<close> \<open>WriteGroups\<close> does what a single call of \<open>writeGroup\<close> does and
  returns no error, and for \<open>0 \<le> start < end\<close> \<open>WriteInterval\<close> returns no error and writes
  the interval once (when the buffer can hold it); when the reservation does not fit, the
  call panics with \<^verbatim>\<open>bytes.Buffer: too large\<close>.
\<close>

theorem negative_counts:
  "(0 \<le> sint offset \<and> sint groups < 0 \<and> - 9223372036854775808 < sint groups
      \<longrightarrow> (\<exists>r. growSize 0 groupLen groups = Ok r \<and>
            WriteGroups room w offset groupLen groups prefix =
              (if canHold room (length (buf w) + nat (sint r))
               then andThen (writeGroup room w prefix offset groupLen) (\<lambda>(w1, n). Ok (None, w1))
               else Panic ''bytes.Buffer: too large'')))
   \<and> (0 \<le> sint start \<and> sint start < sint e \<and> sint num < 0 \<and> - 9223372036854775808 < sint num
      \<longrightarrow> (\<exists>r. growSize start e num = Ok r \<and>
            WriteInterval room w start e num =
              (if canHold room (length (buf w) + nat (sint r))
                  \<and> canHold room (length (buf w) + length (intervalText (sint start) (sint e) 1))
               then Ok (None, w\<lparr>buf := buf w @ intervalText (sint start) (sint e) 1\<rparr>)
               else Panic ''bytes.Buffer: too large'')))"
proof (intro conjI impI)
  assume a: "0 \<le> sint offset \<and> sint groups < 0 \<and> - 9223372036854775808 < sint groups"
  obtain r where r: "growSize 0 groupLen groups = Ok r" "0 \<le> sint r"
    using growSize_total by blast
  have ne: "groups \<noteq> 0" using a by auto
  have m: "nat (sint (groups - 1)) = 0" using a by (simp add: sint_pred_neg)
  define gb where "gb = groupBytes prefix offset groupLen"
  have gb: "gb \<noteq> []" unfolding gb_def by (rule groupBytes_not_Nil)
  have one: "andThen (writeGroup room w prefix offset groupLen) (\<lambda>(w1, n). Ok (None, w1)) =
      andThen (WriteString room w gb) (\<lambda>w2. Ok (None, w2))"
    by (simp add: writeGroup_eq andThen_assoc gb_def)
  have all: "WriteGroups room w offset groupLen groups prefix =
      andThen (grow room w 0 groupLen groups) (\<lambda>w0.
      andThen (WriteString room w0 gb) (\<lambda>w2. Ok (None, w2)))"
    using a ne by (simp add: WriteGroups_valid m gb_def)
  have "WriteGroups room w offset groupLen groups prefix =
      (if canHold room (length (buf w) + nat (sint r))
       then andThen (writeGroup room w prefix offset groupLen) (\<lambda>(w1, n). Ok (None, w1))
       else Panic ''bytes.Buffer: too large'')"
  proof (cases "canHold room (length (buf w) + nat (sint r))")
    case True
    then show ?thesis unfolding all one by (simp add: grow_eq [OF r])
  next
    case False
    have "\<not> canHold room (length (buf w) + length gb)" if "r = 0"
      using False that canHold_less [of room "length (buf w)" "length gb"] by auto
    then show ?thesis
      using False gb unfolding all by (auto simp: grow_eq [OF r] WriteString_def)
  qed
  then show "\<exists>r. growSize 0 groupLen groups = Ok r \<and>
      WriteGroups room w offset groupLen groups prefix =
        (if canHold room (length (buf w) + nat (sint r))
         then andThen (writeGroup room w prefix offset groupLen) (\<lambda>(w1, n). Ok (None, w1))
         else Panic ''bytes.Buffer: too large'')"
    using r(1) by blast
next
  assume a: "0 \<le> sint start \<and> sint start < sint e \<and> sint num < 0
      \<and> - 9223372036854775808 < sint num"
  obtain r where r: "growSize start e num = Ok r" "0 \<le> sint r"
    using growSize_total by blast
  have ne: "num \<noteq> 0" using a by auto
  have m: "Suc (nat (sint (num - 1))) = 1" using a by (simp add: sint_pred_neg)
  have T: "intervalText (sint start) (sint e) 1 \<noteq> []" by (rule intervalText_not_Nil)
  have "WriteInterval room w start e num =
      andThen (grow room w start e num) (\<lambda>w0.
      andThen (WriteString room w0 (intervalText (sint start) (sint e) 1)) (\<lambda>w5. Ok (None, w5)))"
    using a ne WriteInterval_valid [of start e num room w] unfolding m by simp
  then show "\<exists>r. growSize start e num = Ok r \<and>
      WriteInterval room w start e num =
        (if canHold room (length (buf w) + nat (sint r))
            \<and> canHold room (length (buf w) + length (intervalText (sint start) (sint e) 1))
         then Ok (None, w\<lparr>buf := buf w @ intervalText (sint start) (sint e) 1\<rparr>)
         else Panic ''bytes.Buffer: too large'')"
    using r(1) unfolding reserve_then_write [OF r T] by blast
qed

theorem negative_counts_witness:
  "0 \<le> sint (5 :: int64) \<and> sint (- 3 :: int64) < 0 \<and> - 9223372036854775808 < sint (- 3 :: int64)
   \<and> growSize 0 1 (- 3) = Ok 0
   \<and> WriteGroups 64 \<lparr>unsafe = 0, buf = []\<rparr> 5 1 (- 3) [1] =
       Ok (None, \<lparr>unsafe = 0, buf = '' ($1, $5)''\<rparr>)
   \<and> 0 \<le> sint (0 :: int64) \<and> sint (0 :: int64) < sint (4 :: int64) \<and> sint (- 2 :: int64) < 0
   \<and> - 9223372036854775808 < sint (- 2 :: int64)
   \<and> growSize 0 4 (- 2) = Ok 0
   \<and> WriteInterval 64 \<lparr>unsafe = 0, buf = []\<rparr> 0 4 (- 2) =
       Ok (None, \<lparr>unsafe = 0, buf = '' ($0, $1, $2, $3, $4)''\<rparr>)"
proof -
  have g1: "growSize 0 1 (- 3) = Ok 0"
    by (simp add: growSize_def totalWidth_def word_sle_eq word_sless_alt clamp_eq)
  have g2: "growSize 0 4 (- 2) = Ok 0"
    by (simp add: growSize_def totalWidth_def word_sle_eq word_sless_alt clamp_eq)
  have b: "groupBytes [1] 5 1 = '' ($1, $5)''"
    by (simp add: groupBytes_def Itoa_def showInt_def digit_def decimal.simps)
  have one: "writeGroup 64 \<lparr>unsafe = 0, buf = []\<rparr> [1] 5 1 =
      Ok (\<lparr>unsafe = 0, buf = '' ($1, $5)''\<rparr>, 1)"
    by (simp add: writeGroup_eq b WriteString_def canHold_def)
  have t: "intervalText 0 4 (Suc 0) = '' ($0, $1, $2, $3, $4)''"
    by (simp add: intervalText_def parenList_def placeholder_def showInt_def digit_def
        decimal.simps upto_rec1)
  show ?thesis
    using negative_counts [of 5 "- 3" 1 64 "\<lparr>unsafe = 0, buf = []\<rparr>" "[1]" 0 4 "- 2"]
    by (simp add: g1 g2 one t canHold_def)
qed

text \<open>
  The least \<^verbatim>\<open>int\<close> is negative, and its decrement wraps around to the largest: with room
  for 64 bytes, where one repetition fits, \<open>WriteInterval\<close> goes on writing until the buffer
  is too large. And for the count \<open>- (2 ^ 62)\<close> the size computed by \<open>grow\<close> wraps around
  to \<open>2 ^ 63 - 2\<close>, so that the call panics before it writes.
\<close>

theorem negative_counts_counterexample:
  "0 \<le> sint (0 :: int64) \<and> sint (0 :: int64) < sint (1 :: int64)
   \<and> sint (- 9223372036854775808 :: int64) < 0
   \<and> growSize 0 1 (- 9223372036854775808) = Ok 0
   \<and> intervalText 0 1 1 = '' ($0, $1)''
   \<and> WriteInterval 64 \<lparr>unsafe = 0, buf = []\<rparr> 0 1 (- 9223372036854775808) =
       Panic ''bytes.Buffer: too large''
   \<and> sint (- 4611686018427387904 :: int64) < 0
   \<and> growSize 0 1 (- 4611686018427387904) = Ok 9223372036854775806
   \<and> WriteInterval 281474976710656 \<lparr>unsafe = 0, buf = []\<rparr> 0 1 (- 4611686018427387904) =
       Panic ''bytes.Buffer: too large''"
proof -
  have g1: "growSize 0 1 (- 9223372036854775808) = Ok 0"
    by (simp add: growSize_def totalWidth_def word_sle_eq word_sless_alt clamp_eq)
  have t: "intervalText 0 1 1 = '' ($0, $1)''"
    by (simp add: intervalText_def parenList_def placeholder_def showInt_def digit_def
        decimal.simps upto_rec1)
  have many: "WriteInterval 64 \<lparr>unsafe = 0, buf = []\<rparr> 0 1 (- 9223372036854775808) =
      Panic ''bytes.Buffer: too large''"
    by (rule WriteInterval_many_panics) simp_all
  have g2: "growSize 0 1 (- 4611686018427387904) = Ok 9223372036854775806"
    by (simp add: growSize_def totalWidth_def word_sle_eq word_sless_alt clamp_eq)
  have "grow 281474976710656 \<lparr>unsafe = 0, buf = []\<rparr> 0 1 (- 4611686018427387904) =
      Panic ''bytes.Buffer: too large''"
    by (simp add: grow_def g2 Grow_def word_sless_alt canHold_def)
  then have "WriteInterval 281474976710656 \<lparr>unsafe = 0, buf = []\<rparr> 0 1 (- 4611686018427387904) =
      Panic ''bytes.Buffer: too large''"
    by (simp add: WriteInterval_def word_sless_alt word_sle_eq)
  then show ?thesis using g1 t many g2 by simp
qed

section \<open>The size reserved\<close>




section \<open>The range of the table\<close>

lemma ndigits_pos: "0 < ndigits n"
  by (subst ndigits.simps) simp

lemma digitSum_ge: "n \<le> digitSum n"
proof (induction n)
  case 0
  show ?case by simp
next
  case (Suc n)
  then show ?case using ndigits_pos [of "Suc n"] by (simp add: digitSum_Suc)
qed

text \<open>
  C6, as amended. The table covers the numbers of 1 through 17 digits: for
  \<open>1 \<le> n \<le> 99999999999999999\<close> (and \<open>extraPerItem \<ge> 0\<close> with a sum that fits 64 bits)
  \<open>totalWidth\<close> returns the exact width, which is not zero; for every larger \<open>n\<close>, the
  numbers of 18 and 19 digits among them, it returns 0.
\<close>

theorem totalWidth_table_range:
  "(1 \<le> sint n \<and> sint n \<le> 99999999999999999 \<and> 0 \<le> sint add
      \<and> bruteWidth (nat (sint n)) (nat (sint add)) < 2 ^ 63
     \<longrightarrow> (\<exists>r. totalWidth n add = Ok r \<and> r \<noteq> 0
            \<and> sint r = int (bruteWidth (nat (sint n)) (nat (sint add)))))
   \<and> (99999999999999999 < sint n \<longrightarrow> totalWidth n add = Ok 0)"
proof (intro conjI impI)
  assume a: "1 \<le> sint n \<and> sint n \<le> 99999999999999999 \<and> 0 \<le> sint add
      \<and> bruteWidth (nat (sint n)) (nat (sint add)) < 2 ^ 63"
  define B where "B = bruteWidth (nat (sint n)) (nat (sint add))"
  have eq: "totalWidth n add = Ok (of_nat B)"
    unfolding B_def using a by (intro totalWidth_brute) simp_all
  have s: "sint (of_nat B :: int64) = int B"
    using a unfolding B_def by (intro sint_of_nat_small) simp
  have "nat (sint n) \<le> digitSum (nat (sint n))" by (rule digitSum_ge)
  moreover have "0 < nat (sint n)" using a by simp
  ultimately have "0 < digitSum (nat (sint n))" by linarith
  then have "0 < B" unfolding B_def by (simp add: bruteWidth_digitSum)
  then have "(of_nat B :: int64) \<noteq> 0" using s by auto
  then show "\<exists>r. totalWidth n add = Ok r \<and> r \<noteq> 0
      \<and> sint r = int (bruteWidth (nat (sint n)) (nat (sint add)))"
    using eq s unfolding B_def by simp
next
  assume "99999999999999999 < sint n"
  then show "totalWidth n add = Ok 0" by (rule totalWidth_beyond)
qed

theorem totalWidth_table_range_witness:
  "1 \<le> sint (12 :: int64) \<and> sint (12 :: int64) \<le> 99999999999999999 \<and> 0 \<le> sint (3 :: int64)
     \<and> bruteWidth (nat (sint (12 :: int64))) (nat (sint (3 :: int64))) < 2 ^ 63
     \<and> (\<exists>r. totalWidth 12 3 = Ok r \<and> r \<noteq> 0 \<and> sint r = int (bruteWidth 12 3))
     \<and> 99999999999999999 < sint (9223372036854775807 :: int64)
     \<and> totalWidth 9223372036854775807 3 = Ok 0"
  using totalWidth_table_range [of 12 3] totalWidth_table_range [of 9223372036854775807 3]
  by (simp add: bruteWidth_digitSum digitSum_two)

text \<open>The smallest number of 18 digits is positive and already gets 0.\<close>

theorem totalWidth_18_digits_counterexample:
  "0 < sint (100000000000000000 :: int64) \<and> totalWidth 100000000000000000 3 = Ok 0"
  by (simp add: totalWidth_beyond)

section \<open>Validation\<close>

lemma andThen_eq_Ok: "andThen m f = Ok y \<longleftrightarrow> (\<exists>x. m = Ok x \<and> f x = Ok y)"
  by (cases m) simp_all

text \<open>
  C5. \<open>WriteGroups\<close> returns the invalid-argument error, with the buffer as it was, when
  \<open>offset < 0\<close> or \<open>groups = 0\<close>, and never returns an error otherwise; \<open>WriteInterval\<close>
  does so when \<open>start < 0\<close>, \<open>start \<ge> end\<close> or \<open>num = 0\<close>, and never returns an error
  otherwise.
\<close>

theorem invalid_arguments:
  "(sint offset < 0 \<or> groups = 0
      \<longrightarrow> WriteGroups room w offset groupLen groups prefix =
            Ok (Some ''invalid arguments to WriteGroups'', w))
   \<and> (\<not> (sint offset < 0 \<or> groups = 0)
      \<longrightarrow> (\<forall>err w'. WriteGroups room w offset groupLen groups prefix \<noteq> Ok (Some err, w')))
   \<and> (sint start < 0 \<or> sint e \<le> sint start \<or> num = 0
      \<longrightarrow> WriteInterval room w start e num = Ok (Some ''invalid arguments to WriteInterval'', w))
   \<and> (\<not> (sint start < 0 \<or> sint e \<le> sint start \<or> num = 0)
      \<longrightarrow> (\<forall>err w'. WriteInterval room w start e num \<noteq> Ok (Some err, w')))"
  by (auto simp: WriteGroups_def WriteInterval_def andThen_eq_Ok word_sless_alt word_sle_eq
      split: prod.splits)

theorem invalid_arguments_witness:
  "sint (- 1 :: int64) < 0
   \<and> WriteGroups 64 \<lparr>unsafe = 0, buf = ''x''\<rparr> (- 1) 1 1 [] =
       Ok (Some ''invalid arguments to WriteGroups'', \<lparr>unsafe = 0, buf = ''x''\<rparr>)
   \<and> WriteGroups 64 \<lparr>unsafe = 0, buf = ''x''\<rparr> 1 1 0 [] =
       Ok (Some ''invalid arguments to WriteGroups'', \<lparr>unsafe = 0, buf = ''x''\<rparr>)
   \<and> \<not> (sint (1 :: int64) < 0 \<or> (1 :: int64) = 0)
   \<and> (\<forall>err w'. WriteGroups 64 \<lparr>unsafe = 0, buf = ''x''\<rparr> 1 1 1 [] \<noteq> Ok (Some err, w'))
   \<and> sint (5 :: int64) \<le> sint (5 :: int64)
   \<and> WriteInterval 64 \<lparr>unsafe = 0, buf = ''x''\<rparr> 5 5 1 =
       Ok (Some ''invalid arguments to WriteInterval'', \<lparr>unsafe = 0, buf = ''x''\<rparr>)
   \<and> \<not> (sint (1 :: int64) < 0 \<or> sint (5 :: int64) \<le> sint (1 :: int64) \<or> (1 :: int64) = 0)
   \<and> (\<forall>err w'. WriteInterval 64 \<lparr>unsafe = 0, buf = ''x''\<rparr> 1 5 1 \<noteq> Ok (Some err, w'))"
  using invalid_arguments [of "- 1" 1 64 "\<lparr>unsafe = 0, buf = ''x''\<rparr>" 1 "[]" 5 5 1]
    invalid_arguments [of 1 0 64 "\<lparr>unsafe = 0, buf = ''x''\<rparr>" 1 "[]" 1 5 1]
    invalid_arguments [of 1 1 64 "\<lparr>unsafe = 0, buf = ''x''\<rparr>" 1 "[]" 1 5 1]
  by simp

section \<open>Faults of the escape hatch\<close>

text \<open>
  C8. On a non-empty buffer with the flag clear, \<open>UnsafeBytes\<close> returns the bytes and sets
  the flag; a second \<open>UnsafeBytes\<close> on that buffer panics, and so does \<open>PutBuffer\<close> while
  the flag is set. With the flag clear neither \<open>UnsafeBytes\<close> nor \<open>PutBuffer\<close> panics.
\<close>

theorem escape_hatch_faults:
  "(buf b \<noteq> [] \<and> unsafe b = 0
      \<longrightarrow> UnsafeBytes b bufferPool = Ok (Some (buf b), b\<lparr>unsafe := 1\<rparr>, bufferPool)
        \<and> UnsafeBytes (b\<lparr>unsafe := 1\<rparr>) bufferPool = Panic ''pools: UnsafeBytes called twice''
        \<and> PutBuffer (b\<lparr>unsafe := 1\<rparr>) bufferPool =
            Panic ''pools: PutBuffer called after UnsafeBytes without finalizer running'')
   \<and> (buf b \<noteq> [] \<and> unsafe b \<noteq> 0
      \<longrightarrow> UnsafeBytes b bufferPool = Panic ''pools: UnsafeBytes called twice'')
   \<and> (unsafe b \<noteq> 0
      \<longrightarrow> PutBuffer b bufferPool =
            Panic ''pools: PutBuffer called after UnsafeBytes without finalizer running'')
   \<and> (unsafe b = 0
      \<longrightarrow> (\<exists>r. UnsafeBytes b bufferPool = Ok r)
        \<and> PutBuffer b bufferPool = Ok (Reset b, Reset b # bufferPool))"
  by (simp add: UnsafeBytes_def PutBuffer_def CompareAndSwapUint32_def Len_def Let_def)

theorem escape_hatch_faults_witness:
  "buf \<lparr>unsafe = 0, buf = ''abc''\<rparr> \<noteq> [] \<and> unsafe \<lparr>unsafe = 0, buf = ''abc''\<rparr> = 0
   \<and> UnsafeBytes \<lparr>unsafe = 0, buf = ''abc''\<rparr> [] = Ok (Some ''abc'', \<lparr>unsafe = 1, buf = ''abc''\<rparr>, [])
   \<and> UnsafeBytes \<lparr>unsafe = 1, buf = ''abc''\<rparr> [] = Panic ''pools: UnsafeBytes called twice''
   \<and> PutBuffer \<lparr>unsafe = 1, buf = ''abc''\<rparr> [] =
        Panic ''pools: PutBuffer called after UnsafeBytes without finalizer running''
   \<and> PutBuffer \<lparr>unsafe = 0, buf = ''abc''\<rparr> [] =
        Ok (\<lparr>unsafe = 0, buf = []\<rparr>, [\<lparr>unsafe = 0, buf = []\<rparr>])"
  using escape_hatch_faults [of "\<lparr>unsafe = 0, buf = ''abc''\<rparr>" "[]"]
    escape_hatch_faults [of "\<lparr>unsafe = 1, buf = ''abc''\<rparr>" "[]"]
  by (simp add: Reset_def)

end
